theory Spec2Isabelle
  imports Complex_Main "HOL-Library.Sublist"
begin

section \<open>Python values and errors\<close>

text \<open>
  The notebook's class \<open>RAGLLM\<close> raises no exception of its own: every failure it can
  show comes from the libraries it calls (numpy, scikit-learn, the list and string
  primitives of Python). These are the exceptions those calls raise.
\<close>

datatype py_error = ValueError | IndexError

text \<open>\<open>xs[i]\<close> on a Python list or a one-dimensional numpy array: a negative index
  counts from the end, an index out of range raises \<open>IndexError\<close>.\<close>

definition getitem :: "'a list \<Rightarrow> int \<Rightarrow> py_error + 'a" where
  "getitem xs i =
     (if 0 \<le> i \<and> i < int (length xs) then Inr (xs ! nat i)
      else if i < 0 \<and> - int (length xs) \<le> i then Inr (xs ! nat (int (length xs) + i))
      else Inl IndexError)"

section \<open>Strings: the prompt and the answer\<close>

abbreviation NL :: char where
  "NL \<equiv> CHR 0x0A"

text \<open>\<open>str.find(sub)\<close>: the index of the first occurrence of \<open>sub\<close>, scanning from the
  left; \<open>None\<close> stands for Python's \<open>-1\<close>.\<close>

fun str_find :: "string \<Rightarrow> string \<Rightarrow> nat option" where
  "str_find sub [] = (if sub = [] then Some 0 else None)"
| "str_find sub (c # cs) =
     (if prefix sub (c # cs) then Some 0 else map_option Suc (str_find sub cs))"

text \<open>The loop of \<open>str.split(sep)\<close> with a separator and no limit: find the next
  occurrence, cut the segment before it, continue after it; what is left when no
  occurrence remains is the last segment.\<close>

function split_loop :: "string \<Rightarrow> string \<Rightarrow> string list" where
  "split_loop sep s =
     (case str_find sep s of
        None \<Rightarrow> [s]
      | Some pos \<Rightarrow>
          if sep = [] then [s]
          else take pos s # split_loop sep (drop (pos + length sep) s))"
  by pat_completeness auto
termination
proof (relation "measure (\<lambda>(sep, s). length s)")
  show "wf (measure (\<lambda>(sep, s). length s))" by simp
next
  fix sep s :: string and pos :: nat
  assume f: "str_find sep s = Some pos" and ne: "sep \<noteq> []"
  from f ne have "s \<noteq> []" by (cases s) auto
  with ne show "((sep, drop (pos + length sep) s), (sep, s)) \<in> measure (\<lambda>(sep, s). length s)"
    by simp
qed

declare split_loop.simps [simp del]

text \<open>\<open>s.split(sep)\<close>: an empty separator raises \<open>ValueError\<close>.\<close>

definition py_split :: "string \<Rightarrow> string \<Rightarrow> py_error + string list" where
  "py_split s sep = (if sep = [] then Inl ValueError else Inr (split_loop sep s))"

text \<open>Step 4 of \<open>generate_answer\<close>, the f-string
  \<^verbatim>\<open>f"Context: {best_context}\n\nQuestion: {user_question}\nAnswer:"\<close>.\<close>

definition build_prompt :: "string \<Rightarrow> string \<Rightarrow> string" where
  "build_prompt best_context user_question =
     concat [''Context: '', best_context, [NL, NL], ''Question: '', user_question,
             [NL], ''Answer:'']"

text \<open>\<^verbatim>\<open>answer = answer_text.split("Answer: ")[-1]\<close>\<close>

definition extract_answer :: "string \<Rightarrow> py_error + string" where
  "extract_answer answer_text =
     (case py_split answer_text ''Answer: '' of
        Inl e \<Rightarrow> Inl e
      | Inr segments \<Rightarrow> getitem segments (- 1))"

text \<open>
  The round trip of the specification, in its words: the text strictly after the literal
  \<^verbatim>\<open>"Context: "\<close> and strictly before the literal \<^verbatim>\<open>"\n\nQuestion:"\<close>, each
  located by its first occurrence. The notebook has no such function; this one states
  the property that is tested against \<open>build_prompt\<close>.
\<close>

definition question_marker :: string where
  "question_marker = [NL, NL] @ ''Question:''"

definition text_between :: "string \<Rightarrow> string \<Rightarrow> string \<Rightarrow> string option" where
  "text_between a b s =
     (case str_find a s of
        None \<Rightarrow> None
      | Some i \<Rightarrow>
          (let rest = drop (i + length a) s
           in case str_find b rest of None \<Rightarrow> None | Some j \<Rightarrow> Some (take j rest)))"

definition spec_recover_passage :: "string \<Rightarrow> string option" where
  "spec_recover_passage prompt = text_between ''Context: '' question_marker prompt"

section \<open>Embeddings and scores\<close>

text \<open>
  An embedding is a row of float32 numbers, and so is a row of scores. The sentence
  encoder is an external model: it is a parameter \<open>st_model\<close> of the index, a function
  from a text to its row, and the batched call \<open>encode(texts)\<close> is its map over the batch.
  The rows it returns are finite: a row is a list of reals, each the value of a float32.
  A score is any float32 value. The two signed zeros are one value here: they compare
  equal, and the sign of a zero matters only to a division by zero, which the
  normalisation below never performs.
\<close>

type_synonym vector = "real list"

datatype f32 = Fin real | PInf | NInf | NaN

text \<open>The comparisons of IEEE 754: every comparison with NaN is false.\<close>

fun fle :: "f32 \<Rightarrow> f32 \<Rightarrow> bool" where
  "fle NaN _ \<longleftrightarrow> False"
| "fle _ NaN \<longleftrightarrow> False"
| "fle NInf _ \<longleftrightarrow> True"
| "fle _ PInf \<longleftrightarrow> True"
| "fle (Fin a) (Fin b) \<longleftrightarrow> a \<le> b"
| "fle PInf _ \<longleftrightarrow> False"
| "fle _ NInf \<longleftrightarrow> False"

fun flt :: "f32 \<Rightarrow> f32 \<Rightarrow> bool" where
  "flt NaN _ \<longleftrightarrow> False"
| "flt _ NaN \<longleftrightarrow> False"
| "flt (Fin a) (Fin b) \<longleftrightarrow> a < b"
| "flt PInf _ \<longleftrightarrow> False"
| "flt _ NInf \<longleftrightarrow> False"
| "flt _ PInf \<longleftrightarrow> True"
| "flt NInf _ \<longleftrightarrow> True"

text \<open>
  \<open>cosine_similarity(X, Y)\<close> of scikit-learn, for a one-row \<open>X\<close>: both arrays are
  validated (at least one row, at least one column, the same number of columns), then
  every row of \<open>Y\<close> gets its score against the row of \<open>X\<close>. The score of a pair of rows
  is the parameter \<open>sim\<close>: the retrieval is stated for every such function, and
  \<open>cos_sim32\<close> below is the one scikit-learn computes.
\<close>

definition cosine_similarity ::
  "(vector \<Rightarrow> vector \<Rightarrow> f32) \<Rightarrow> vector \<Rightarrow> vector list \<Rightarrow> py_error + f32 list" where
  "cosine_similarity sim x Y =
     (if Y = [] \<or> x = [] \<or> \<not> list_all (\<lambda>y. length y = length x) Y
      then Inl ValueError
      else Inr (map (sim x) Y))"

text \<open>\<open>np.argmax\<close> on floats: one pass that keeps the largest value seen and its index,
  replaced by the next value unless that value is \<open>\<le>\<close> the one kept; a NaN is kept at once
  and ends the pass. An empty array raises \<open>ValueError\<close>.\<close>

fun argmax_loop :: "f32 \<Rightarrow> nat \<Rightarrow> nat \<Rightarrow> f32 list \<Rightarrow> nat" where
  "argmax_loop mp idx i [] = idx"
| "argmax_loop mp idx i (v # vs) =
     (if \<not> fle v mp
      then (if v = NaN then i else argmax_loop v i (Suc i) vs)
      else argmax_loop mp idx (Suc i) vs)"

definition np_argmax :: "f32 list \<Rightarrow> py_error + nat" where
  "np_argmax a =
     (case a of
        [] \<Rightarrow> Inl ValueError
      | v # vs \<Rightarrow> if v = NaN then Inr 0 else Inr (argmax_loop v 0 1 vs))"

section \<open>The index and the two-stage retrieval\<close>

text \<open>\<open>Series.unique()\<close> of pandas: the distinct values in order of appearance, found with
  a table of the values already seen.\<close>

fun unique_loop :: "'a list \<Rightarrow> 'a list \<Rightarrow> 'a list" where
  "unique_loop seen [] = []"
| "unique_loop seen (x # xs) =
     (if x \<in> set seen then unique_loop seen xs else x # unique_loop (x # seen) xs)"

definition unique :: "'a list \<Rightarrow> 'a list" where
  "unique xs = unique_loop [] xs"

text \<open>The object's fields. \<open>external_data\<close> is the data frame, a sequence of rows
  \<open>(topic, context)\<close>. The text generator is the second external model: a function from
  the prompt to the generated text.\<close>

record ragllm =
  st_model :: "string \<Rightarrow> vector"
  external_data :: "(string \<times> string) list"
  titles :: "string list"
  title_embeddings :: "vector list"
  generator :: "string \<Rightarrow> string"

text \<open>\<open>RAGLLM.__init__\<close>. It has no check and no \<open>raise\<close>: every corpus, the empty one
  included, reaches the end of the constructor.\<close>

definition RAGLLM_init ::
  "(string \<Rightarrow> vector) \<Rightarrow> (string \<Rightarrow> string) \<Rightarrow> (string \<times> string) list \<Rightarrow> py_error + ragllm" where
  "RAGLLM_init encoder llm data =
     (let ts = unique (map fst data)
      in Inr \<lparr>st_model = encoder, external_data = data, titles = ts,
               title_embeddings = map encoder ts, generator = llm\<rparr>)"

text \<open>Step 2 of \<open>generate_answer\<close>:
  \<^verbatim>\<open>self.external_data[self.external_data['topic'] == best_title]['context'].tolist()\<close>,
  a boolean mask over the rows; it has no check either.\<close>

definition passages_for_topic :: "(string \<times> string) list \<Rightarrow> string \<Rightarrow> string list" where
  "passages_for_topic data topic = map snd (filter (\<lambda>row. fst row = topic) data)"

text \<open>Steps 1 to 3 of \<open>generate_answer\<close>, with the local variables the later steps and
  the two \<open>print\<close> calls read.\<close>

record retrieval =
  best_title_index :: nat
  best_title :: string
  topic_contexts :: "string list"
  best_context_index :: nat
  best_context :: string

definition retrieve ::
  "(vector \<Rightarrow> vector \<Rightarrow> f32) \<Rightarrow> ragllm \<Rightarrow> string \<Rightarrow> py_error + retrieval" where
  "retrieve sim self user_question =
     (let question_embedding = st_model self user_question
      in case cosine_similarity sim question_embedding (title_embeddings self) of
           Inl e \<Rightarrow> Inl e
         | Inr title_similarities \<Rightarrow>
      (case np_argmax title_similarities of
           Inl e \<Rightarrow> Inl e
         | Inr bti \<Rightarrow>
      (case getitem (titles self) (int bti) of
           Inl e \<Rightarrow> Inl e
         | Inr bt \<Rightarrow>
      (let contexts = passages_for_topic (external_data self) bt;
           context_embeddings = map (st_model self) contexts
       in case cosine_similarity sim question_embedding context_embeddings of
           Inl e \<Rightarrow> Inl e
         | Inr context_similarities \<Rightarrow>
      (case np_argmax context_similarities of
           Inl e \<Rightarrow> Inl e
         | Inr bci \<Rightarrow>
      (case getitem contexts (int bci) of
           Inl e \<Rightarrow> Inl e
         | Inr bc \<Rightarrow>
             Inr \<lparr>best_title_index = bti, best_title = bt, topic_contexts = contexts,
                  best_context_index = bci, best_context = bc\<rparr>))))))"

text \<open>\<open>RAGLLM.generate_answer\<close>: retrieval, then step 4.\<close>

definition generate_answer ::
  "(vector \<Rightarrow> vector \<Rightarrow> f32) \<Rightarrow> ragllm \<Rightarrow> string \<Rightarrow> py_error + string" where
  "generate_answer sim self user_question =
     (case retrieve sim self user_question of
        Inl e \<Rightarrow> Inl e
      | Inr r \<Rightarrow>
          (let prompt = build_prompt (best_context r) user_question;
               answer_text = generator self prompt
           in extract_answer answer_text))"

section \<open>The scores of scikit-learn, in float32\<close>

text \<open>
  The arrays are float32, and scikit-learn keeps that type: every operation below gives
  the float32 nearest to the exact result (ties to the even neighbour), \<open>\<plusminus>\<infinity>\<close> on
  overflow. Sums run over a row from left to right, one rounding after each product and
  each addition.
\<close>

text \<open>The number of binary digits of a positive integer.\<close>

function bits :: "int \<Rightarrow> int" where
  "bits n = (if n \<le> 0 then 0 else 1 + bits (n div 2))"
  by pat_completeness auto
termination
  by (relation "measure nat") auto

declare bits.simps [simp del]

text \<open>The binary exponent of a positive real: \<open>2 powi ilog2 x \<le> x < 2 powi (ilog2 x + 1)\<close>.\<close>

definition ilog2 :: "real \<Rightarrow> int" where
  "ilog2 x = (if 1 \<le> x then bits \<lfloor>x\<rfloor> - 1 else - bits (\<lceil>1 / x\<rceil> - 1))"

text \<open>Rounding to the nearest integer, a tie to the even one.\<close>

definition rne :: "real \<Rightarrow> int" where
  "rne t = (let f = \<lfloor>t\<rfloor>; d = t - of_int f
            in if d < 1 / 2 then f else if 1 / 2 < d then f + 1
               else if even f then f else f + 1)"

text \<open>The exponent of the last place of the float32 numbers around \<open>x\<close>: 24 binary
  digits, and no exponent below that of the subnormal numbers.\<close>

definition quantum :: "real \<Rightarrow> int" where
  "quantum x = max (ilog2 \<bar>x\<bar>) (- 126) - 23"

definition round32 :: "real \<Rightarrow> f32" where
  "round32 x =
     (if x = 0 then Fin 0
      else let q = quantum x; y = of_int (rne (x / 2 powi q)) * 2 powi q
           in if 2 ^ 128 \<le> \<bar>y\<bar> then (if 0 < x then PInf else NInf) else Fin y)"

fun fmul :: "f32 \<Rightarrow> f32 \<Rightarrow> f32" where
  "fmul (Fin a) (Fin b) = round32 (a * b)"
| "fmul NaN _ = NaN"
| "fmul _ NaN = NaN"
| "fmul (Fin a) PInf = (if a = 0 then NaN else if 0 < a then PInf else NInf)"
| "fmul (Fin a) NInf = (if a = 0 then NaN else if 0 < a then NInf else PInf)"
| "fmul PInf (Fin b) = (if b = 0 then NaN else if 0 < b then PInf else NInf)"
| "fmul NInf (Fin b) = (if b = 0 then NaN else if 0 < b then NInf else PInf)"
| "fmul PInf PInf = PInf"
| "fmul NInf NInf = PInf"
| "fmul PInf NInf = NInf"
| "fmul NInf PInf = NInf"

fun fadd :: "f32 \<Rightarrow> f32 \<Rightarrow> f32" where
  "fadd (Fin a) (Fin b) = round32 (a + b)"
| "fadd NaN _ = NaN"
| "fadd _ NaN = NaN"
| "fadd PInf NInf = NaN"
| "fadd NInf PInf = NaN"
| "fadd PInf _ = PInf"
| "fadd _ PInf = PInf"
| "fadd NInf _ = NInf"
| "fadd _ NInf = NInf"

fun fdiv :: "f32 \<Rightarrow> f32 \<Rightarrow> f32" where
  "fdiv (Fin a) (Fin b) =
     (if b = 0 then (if a = 0 then NaN else if 0 < a then PInf else NInf)
      else round32 (a / b))"
| "fdiv NaN _ = NaN"
| "fdiv _ NaN = NaN"
| "fdiv (Fin a) PInf = Fin 0"
| "fdiv (Fin a) NInf = Fin 0"
| "fdiv PInf (Fin b) = (if 0 \<le> b then PInf else NInf)"
| "fdiv NInf (Fin b) = (if 0 \<le> b then NInf else PInf)"
| "fdiv PInf PInf = NaN"
| "fdiv PInf NInf = NaN"
| "fdiv NInf PInf = NaN"
| "fdiv NInf NInf = NaN"

text \<open>The integer square root, two binary digits at a time.\<close>

function isqrt :: "int \<Rightarrow> int" where
  "isqrt n = (if n < 2 then max n 0
              else let r = 2 * isqrt (n div 4)
                   in if (r + 1) * (r + 1) \<le> n then r + 1 else r)"
  by pat_completeness auto
termination
  by (relation "measure nat") auto

declare isqrt.simps [simp del]

text \<open>The square root, rounded as the other operations are: the integer part of the
  root of the scaled argument, then the comparison with the midpoint.\<close>

fun fsqrt :: "f32 \<Rightarrow> f32" where
  "fsqrt (Fin x) =
     (if x < 0 then NaN else if x = 0 then Fin 0
      else let q = ilog2 x div 2 - 23; t = x / 2 powi (2 * q);
               m = isqrt \<lfloor>t\<rfloor>; h = (of_int m + 1 / 2) ^ 2;
               r = (if t < h then m else if h < t then m + 1
                    else if even m then m else m + 1)
           in Fin (of_int r * 2 powi q))"
| "fsqrt PInf = PInf"
| "fsqrt NInf = NaN"
| "fsqrt NaN = NaN"

text \<open>\<open>row_norms\<close>: the square root of the sum of the squares of a row.\<close>

definition row_norm32 :: "f32 list \<Rightarrow> f32" where
  "row_norm32 row = fsqrt (foldl fadd (Fin 0) (map (\<lambda>v. fmul v v) row))"

text \<open>\<open>_handle_zeros_in_scale\<close>: a norm below ten machine epsilons, \<open>10 * 2^-23\<close> in
  float32, is replaced by 1.\<close>

definition handle_zeros_in_scale :: "f32 \<Rightarrow> f32" where
  "handle_zeros_in_scale scale = (if flt scale (Fin (10 / 2 ^ 23)) then Fin 1 else scale)"

text \<open>\<open>normalize\<close>: every entry of the row divided by the norm so handled.\<close>

definition normalize32 :: "f32 list \<Rightarrow> f32 list" where
  "normalize32 row = map (\<lambda>v. fdiv v (handle_zeros_in_scale (row_norm32 row))) row"

definition dot32 :: "f32 list \<Rightarrow> f32 list \<Rightarrow> f32" where
  "dot32 a b = foldl fadd (Fin 0) (map2 fmul a b)"

text \<open>The score of two rows: both are taken as float32 arrays, both are normalised, and
  the score is the dot product of the results.\<close>

definition cos_sim32 :: "vector \<Rightarrow> vector \<Rightarrow> f32" where
  "cos_sim32 a b = dot32 (normalize32 (map round32 a)) (normalize32 (map round32 b))"

section \<open>Notions used to state the properties\<close>

text \<open>The order in which \<open>np.argmax\<close> ranks scores: the order of the numbers, with NaN
  above all of them.\<close>

definition score_le :: "f32 \<Rightarrow> f32 \<Rightarrow> bool" where
  "score_le a b \<longleftrightarrow> b = NaN \<or> fle a b"

text \<open>The position \<open>i\<close> holds a maximum of \<open>xs\<close> and no earlier position does.\<close>

definition is_first_max :: "f32 list \<Rightarrow> nat \<Rightarrow> bool" where
  "is_first_max xs i \<longleftrightarrow>
     i < length xs \<and> (\<forall>j < length xs. score_le (xs ! j) (xs ! i)) \<and>
     (\<forall>j < i. \<not> score_le (xs ! i) (xs ! j))"

text \<open>The position at which \<open>x\<close> is first seen in \<open>xs\<close>.\<close>

definition first_index :: "'a list \<Rightarrow> 'a \<Rightarrow> nat" where
  "first_index xs x = length (takeWhile (\<lambda>y. y \<noteq> x) xs)"

text \<open>The contract of the sentence encoder: every text gets a row of the same positive
  length \<open>d\<close>.\<close>

definition encoder_dim :: "(string \<Rightarrow> vector) \<Rightarrow> nat \<Rightarrow> bool" where
  "encoder_dim encoder d \<longleftrightarrow> 0 < d \<and> (\<forall>s. length (encoder s) = d)"

text \<open>A real is a float32 value when rounding leaves it as it is; the encoder returns
  float32 arrays.\<close>

definition is_f32 :: "real \<Rightarrow> bool" where
  "is_f32 x \<longleftrightarrow> round32 x = Fin x"




text \<open>A small corpus, a two-dimensional encoder, a stand-in score (the exact dot
  product) and an echoing generator, for the concrete instances below.\<close>

definition toy_encoder :: "string \<Rightarrow> vector" where
  "toy_encoder s = (if s = [] then [0, 0] else if hd s = CHR ''A'' then [2, 0] else [0, 3])"

definition toy_sim :: "vector \<Rightarrow> vector \<Rightarrow> f32" where
  "toy_sim a b = Fin (sum_list (map2 (*) a b))"

definition toy_generator :: "string \<Rightarrow> string" where
  "toy_generator prompt = prompt @ '' 42''"

definition toy_corpus :: "(string \<times> string) list" where
  "toy_corpus = [(''Florida'', ''Flowery land''), (''Alaska'', ''Coldest state''),
                 (''Alaska'', ''Alaska is the largest state''), (''Florida'', ''A peninsula''),
                 (''Alaska'', ''Alaska is cold'')]"

definition toy_index :: ragllm where
  "toy_index = \<lparr>st_model = toy_encoder, external_data = toy_corpus,
     titles = [''Florida'', ''Alaska''],
     title_embeddings = [[0, 3], [2, 0]], generator = toy_generator\<rparr>"

section \<open>Properties of the string operations\<close>

lemma str_find_None_iff: "str_find sub s = None \<longleftrightarrow> \<not> sublist sub s"
  by (induction s) (auto simp: sublist_Cons_right)

lemma str_find_Some:
  "str_find sub s = Some pos \<Longrightarrow> s = take pos s @ sub @ drop (pos + length sub) s"
proof (induction s arbitrary: pos)
  case Nil
  then show ?case by (simp split: if_splits)
next
  case (Cons c cs)
  show ?case
  proof (cases "prefix sub (c # cs)")
    case True
    with Cons.prems have "pos = 0" by simp
    with True show ?thesis by (auto simp: prefix_def)
  next
    case False
    with Cons.prems obtain p where p: "str_find sub cs = Some p" "pos = Suc p"
      by auto
    from Cons.IH [OF p(1)] p(2) show ?thesis by simp
  qed
qed

lemma split_loop_nonempty: "split_loop sep s \<noteq> []"
  by (subst split_loop.simps) (simp split: option.splits)

lemma getitem_last: "xs \<noteq> [] \<Longrightarrow> getitem xs (- 1) = Inr (last xs)"
  by (cases xs) (simp_all add: getitem_def last_conv_nth nat_diff_distrib')

lemma str_find_bound: "str_find sub s = Some j \<Longrightarrow> j + length sub \<le> length s"
proof (induction s arbitrary: j)
  case Nil
  then show ?case by (simp split: if_splits)
next
  case (Cons c cs)
  then show ?case by (auto dest: prefix_length_le split: if_splits)
qed

lemma str_find_prefix: "str_find sub (sub @ r) = Some 0"
proof (cases "sub @ r")
  case Nil
  then show ?thesis by simp
next
  case (Cons a list)
  have "prefix sub (sub @ r)" by simp
  with Cons show ?thesis by simp
qed

text \<open>An occurrence found in \<open>p\<close> is still there in \<open>p @ r\<close>, where the first occurrence
  can only be earlier.\<close>

lemma str_find_le:
  "str_find sub p = Some j \<Longrightarrow> \<exists>j'. str_find sub (p @ r) = Some j' \<and> j' \<le> j"
proof (induction p arbitrary: j)
  case Nil
  then show ?case by (cases r) (auto split: if_splits)
next
  case (Cons c cs)
  show ?case
  proof (cases "prefix sub (c # cs @ r)")
    case True
    then show ?thesis by simp
  next
    case False
    have "prefix (c # cs) (c # cs @ r)" by simp
    with False have np: "\<not> prefix sub (c # cs)"
      using prefix_order.trans by blast
    with Cons.prems obtain k where k: "str_find sub cs = Some k" "j = Suc k" by auto
    from Cons.IH [OF k(1)] obtain k' where "str_find sub (cs @ r) = Some k'" "k' \<le> k" by blast
    with False k(2) show ?thesis by simp
  qed
qed

text \<open>The last segment holds no separator, and it is the whole string or what follows a
  separator.\<close>

lemma split_loop_last:
  "sep \<noteq> [] \<Longrightarrow>
     \<not> sublist sep (last (split_loop sep s)) \<and>
     (last (split_loop sep s) = s \<or> (\<exists>pre. s = pre @ sep @ last (split_loop sep s)))"
proof (induction sep s rule: split_loop.induct)
  case (1 sep s)
  show ?case
  proof (cases "str_find sep s")
    case None
    then have "split_loop sep s = [s]" by (subst split_loop.simps) simp
    with None show ?thesis by (simp add: str_find_None_iff)
  next
    case (Some pos)
    let ?r = "drop (pos + length sep) s"
    from Some "1.prems" have sl: "split_loop sep s = take pos s # split_loop sep ?r"
      by (subst split_loop.simps) simp
    have l: "last (split_loop sep s) = last (split_loop sep ?r)"
      by (simp add: sl split_loop_nonempty)
    from "1.IH" [OF Some "1.prems" "1.prems"]
    have ih: "\<not> sublist sep (last (split_loop sep ?r))"
      "last (split_loop sep ?r) = ?r \<or> (\<exists>pre. ?r = pre @ sep @ last (split_loop sep ?r))"
      by auto
    from str_find_Some [OF Some] have s: "s = take pos s @ sep @ ?r" .
    from ih(2) have "\<exists>pre. s = pre @ sep @ last (split_loop sep ?r)"
    proof
      assume "last (split_loop sep ?r) = ?r"
      with s show ?thesis by metis
    next
      assume "\<exists>pre. ?r = pre @ sep @ last (split_loop sep ?r)"
      then obtain pre where "?r = pre @ sep @ last (split_loop sep ?r)" ..
      with s have "s = (take pos s @ sep @ pre) @ sep @ last (split_loop sep ?r)"
        by (metis append.assoc)
      then show ?thesis ..
    qed
    with ih(1) l show ?thesis by simp
  qed
qed

subsection \<open>The prompt\<close>

text \<open>
  Claim C3. For all strings \<open>passage\<close> and \<open>question\<close>, the prompt is exactly
  \<^verbatim>\<open>"Context: "\<close>, the passage, a blank line, \<^verbatim>\<open>"Question: "\<close>, the question, a
  newline and the marker \<^verbatim>\<open>"Answer:"\<close>. The builder is a function of its two
  arguments alone: it reads no state and calls nothing.
\<close>

theorem build_prompt_template:
  "build_prompt passage question =
     ''Context: '' @ passage @ [NL, NL] @ ''Question: '' @ question @ [NL] @ ''Answer:''"
  by (simp add: build_prompt_def)

subsection \<open>The answer\<close>

text \<open>
  Claim C4. For every generated text, the extractor splits it on the literal
  \<^verbatim>\<open>"Answer: "\<close> and returns the last segment, without an error; the segment holds no
  marker, and it is the whole text or what follows a marker. A text without the marker
  is returned unchanged, and \<^verbatim>\<open>"Context...\nAnswer: 42"\<close> gives \<^verbatim>\<open>"42"\<close>.
\<close>

theorem extract_answer_last_segment:
  "(\<exists>segments. py_split raw ''Answer: '' = Inr segments \<and> segments \<noteq> [] \<and>
       extract_answer raw = Inr (last segments) \<and>
       \<not> sublist ''Answer: '' (last segments) \<and>
       (last segments = raw \<or> (\<exists>pre. raw = pre @ ''Answer: '' @ last segments))) \<and>
   (\<not> sublist ''Answer: '' raw \<longrightarrow> extract_answer raw = Inr raw) \<and>
   extract_answer (''Context...'' @ [NL] @ ''Answer: 42'') = Inr ''42''"
proof (intro conjI impI)
  have "\<not> sublist ''Answer: '' (last (split_loop ''Answer: '' raw)) \<and>
     (last (split_loop ''Answer: '' raw) = raw \<or>
      (\<exists>pre. raw = pre @ ''Answer: '' @ last (split_loop ''Answer: '' raw)))"
    by (rule split_loop_last) simp
  then show "\<exists>segments. py_split raw ''Answer: '' = Inr segments \<and> segments \<noteq> [] \<and>
       extract_answer raw = Inr (last segments) \<and>
       \<not> sublist ''Answer: '' (last segments) \<and>
       (last segments = raw \<or> (\<exists>pre. raw = pre @ ''Answer: '' @ last segments))"
    by (simp add: extract_answer_def py_split_def split_loop_nonempty getitem_last)
next
  assume "\<not> sublist ''Answer: '' raw"
  then have "str_find ''Answer: '' raw = None" by (simp add: str_find_None_iff)
  then have "split_loop ''Answer: '' raw = [raw]" by (subst split_loop.simps) simp
  then show "extract_answer raw = Inr raw"
    by (simp add: extract_answer_def py_split_def getitem_last)
next
  show "extract_answer (''Context...'' @ [NL] @ ''Answer: 42'') = Inr ''42''"
    by (simp add: extract_answer_def py_split_def getitem_last split_loop_nonempty
        split_loop.simps)
qed

theorem extract_answer_last_segment_witness:
  "\<not> sublist ''Answer: '' ''no marker here'' \<and>
   extract_answer ''no marker here'' = Inr ''no marker here''"
proof -
  have h: "\<not> sublist ''Answer: '' ''no marker here''"
    unfolding str_find_None_iff [symmetric] by simp
  with extract_answer_last_segment [of "''no marker here''"] show ?thesis by blast
qed

subsection \<open>The round trip of the prompt\<close>

lemma build_prompt_parts:
  "build_prompt p q = ''Context: '' @ (p @ question_marker @ '' '' @ q @ [NL] @ ''Answer:'')"
  by (simp add: build_prompt_def question_marker_def)

text \<open>The marker \<^verbatim>\<open>"\n\nQuestion:"\<close> cannot start inside a passage that does not
  hold it and end in the marker that follows the passage.\<close>

lemma question_marker_straddle:
  "\<not> sublist question_marker p \<Longrightarrow> p \<noteq> [] \<Longrightarrow>
     \<not> prefix question_marker (p @ question_marker @ r)"
  unfolding question_marker_def
  by (auto simp: prefix_append append_eq_Cons_conv Cons_eq_append_conv)

lemma str_find_marker_append:
  "\<not> sublist question_marker p \<Longrightarrow>
     str_find question_marker (p @ question_marker @ r) = Some (length p)"
proof (induction p)
  case Nil
  then show ?case by (simp add: question_marker_def)
next
  case (Cons c cs)
  from Cons.prems have n: "\<not> sublist question_marker cs"
    by (simp add: sublist_Cons_right)
  from question_marker_straddle [OF Cons.prems, of r]
  have "\<not> prefix question_marker (c # cs @ question_marker @ r)"
    by simp
  with Cons.IH [OF n] show ?case by simp
qed

lemma recover_build_prompt:
  "spec_recover_passage (build_prompt p q) =
     map_option (\<lambda>j. take j (p @ question_marker @ '' '' @ q @ [NL] @ ''Answer:''))
       (str_find question_marker (p @ question_marker @ '' '' @ q @ [NL] @ ''Answer:''))"
  unfolding spec_recover_passage_def text_between_def build_prompt_parts str_find_prefix
  by (simp add: Let_def split: option.splits)

text \<open>
  Claim C9, as stated: for all strings \<open>passage\<close> and \<open>question\<close> the text between the
  two literals is the passage. It fails for a passage that holds \<^verbatim>\<open>"\n\nQuestion:"\<close>
  itself: the text recovered stops at the passage's own marker. No other reading of the
  extraction helps, since two different passages can give the same prompt.
\<close>

theorem recover_passage_counterexample:
  "spec_recover_passage (build_prompt (''a'' @ [NL, NL] @ ''Question: b'') ''q'') = Some ''a'' \<and>
   ''a'' \<noteq> ''a'' @ [NL, NL] @ ''Question: b'' \<and>
   build_prompt (''a'' @ [NL, NL] @ ''Question: b'') ''q'' =
     build_prompt ''a'' (''b'' @ [NL, NL] @ ''Question: q'')"
  by (simp add: spec_recover_passage_def text_between_def build_prompt_def question_marker_def)

text \<open>
  Claim C9, amended: for all strings \<open>passage\<close> and \<open>question\<close>, the text strictly after
  the first \<^verbatim>\<open>"Context: "\<close> and strictly before the first \<^verbatim>\<open>"\n\nQuestion:"\<close> of
  the prompt is the passage exactly when the passage does not hold the literal
  \<^verbatim>\<open>"\n\nQuestion:"\<close>.
\<close>

theorem recover_passage_iff:
  "spec_recover_passage (build_prompt passage question) = Some passage \<longleftrightarrow>
     \<not> sublist question_marker passage"
proof
  assume "\<not> sublist question_marker passage"
  then show "spec_recover_passage (build_prompt passage question) = Some passage"
    by (simp add: recover_build_prompt str_find_marker_append)
next
  let ?rest = "passage @ question_marker @ '' '' @ question @ [NL] @ ''Answer:''"
  assume r: "spec_recover_passage (build_prompt passage question) = Some passage"
  show "\<not> sublist question_marker passage"
  proof
    assume "sublist question_marker passage"
    then obtain j where j: "str_find question_marker passage = Some j"
      using str_find_None_iff [of question_marker passage] by auto
    from str_find_bound [OF j] have "j < length passage"
      by (simp add: question_marker_def)
    moreover from str_find_le [OF j] obtain j' where
      j': "str_find question_marker ?rest = Some j'" "j' \<le> j" by blast
    ultimately have "j' < length passage" by simp
    moreover from r j'(1) have "take j' ?rest = passage"
      by (simp add: recover_build_prompt)
    then have "length (take j' ?rest) = length passage"
      by simp
    ultimately show False by simp
  qed
qed

theorem recover_passage_iff_witness:
  "\<not> sublist question_marker ''Alaska is the largest state'' \<and>
   spec_recover_passage (build_prompt ''Alaska is the largest state'' ''Which state?'') =
     Some ''Alaska is the largest state''"
proof -
  have h: "\<not> sublist question_marker ''Alaska is the largest state''"
    unfolding str_find_None_iff [symmetric] by (simp add: question_marker_def)
  with recover_passage_iff [of "''Alaska is the largest state''" "''Which state?''"]
  show ?thesis by blast
qed

section \<open>Properties of the ranking\<close>

lemma score_le_refl: "score_le a a"
  by (cases a) (simp_all add: score_le_def)

lemma score_le_total: "score_le a b \<or> score_le b a"
  by (cases a; cases b) (auto simp: score_le_def)

lemma score_le_trans: "score_le a b \<Longrightarrow> score_le b c \<Longrightarrow> score_le a c"
  by (cases a; cases b; cases c) (auto simp: score_le_def)

lemma not_fle_score: "\<not> fle v mp \<Longrightarrow> v \<noteq> NaN \<Longrightarrow> mp \<noteq> NaN \<Longrightarrow> score_le mp v \<and> \<not> score_le v mp"
  by (cases v; cases mp) (auto simp: score_le_def)

lemma fle_score: "fle v mp \<Longrightarrow> score_le v mp \<and> v \<noteq> NaN"
  by (cases v; cases mp) (auto simp: score_le_def)

lemma score_le_NaN_left: "score_le NaN b \<Longrightarrow> b = NaN"
  by (simp add: score_le_def)

lemma score_le_NaN_right: "score_le a NaN"
  by (simp add: score_le_def)

lemma argmax_loop_spec:
  "length pre = i \<Longrightarrow> idx < i \<Longrightarrow> pre ! idx = mp \<Longrightarrow> mp \<noteq> NaN \<Longrightarrow>
   \<forall>j<i. score_le (pre ! j) mp \<Longrightarrow> \<forall>j<idx. \<not> score_le mp (pre ! j) \<Longrightarrow>
   is_first_max (pre @ vs) (argmax_loop mp idx i vs)"
proof (induction vs arbitrary: pre i idx mp)
  case Nil
  then show ?case by (simp add: is_first_max_def)
next
  case (Cons v vs)
  have old: "pre ! j \<noteq> NaN" if "j < i" for j
    using Cons.prems(4,5) that score_le_NaN_left by metis
  show ?case
  proof (cases "fle v mp")
    case True
    have "is_first_max ((pre @ [v]) @ vs) (argmax_loop mp idx (Suc i) vs)"
    proof (rule Cons.IH)
      show "length (pre @ [v]) = Suc i" using Cons.prems(1) by simp
      show "idx < Suc i" using Cons.prems(2) by simp
      show "(pre @ [v]) ! idx = mp" using Cons.prems(1,2,3) by (simp add: nth_append)
      show "mp \<noteq> NaN" by (rule Cons.prems(4))
      show "\<forall>j<Suc i. score_le ((pre @ [v]) ! j) mp"
        using Cons.prems(1,5) fle_score [OF True] by (auto simp: nth_append less_Suc_eq)
      show "\<forall>j<idx. \<not> score_le mp ((pre @ [v]) ! j)"
        using Cons.prems(1,2,6) by (auto simp: nth_append)
    qed
    with True show ?thesis by simp
  next
    case False
    show ?thesis
    proof (cases "v = NaN")
      case True
      have "is_first_max (pre @ v # vs) i"
        unfolding is_first_max_def
      proof (intro conjI allI impI)
        show "i < length (pre @ v # vs)" using Cons.prems(1) by simp
      next
        fix j assume "j < length (pre @ v # vs)"
        show "score_le ((pre @ v # vs) ! j) ((pre @ v # vs) ! i)"
          using Cons.prems(1) True by (simp add: nth_append score_le_NaN_right)
      next
        fix j assume j: "j < i"
        have "(pre @ v # vs) ! i = NaN" using Cons.prems(1) True by (simp add: nth_append)
        moreover have "(pre @ v # vs) ! j = pre ! j" using Cons.prems(1) j by (simp add: nth_append)
        ultimately show "\<not> score_le ((pre @ v # vs) ! i) ((pre @ v # vs) ! j)"
          using old [OF j] score_le_NaN_left by metis
      qed
      with False True show ?thesis by simp
    next
      case nn: False
      note s = not_fle_score [OF False nn Cons.prems(4)]
      have "is_first_max ((pre @ [v]) @ vs) (argmax_loop v i (Suc i) vs)"
      proof (rule Cons.IH)
        show "length (pre @ [v]) = Suc i" using Cons.prems(1) by simp
        show "i < Suc i" by simp
        show "(pre @ [v]) ! i = v" using Cons.prems(1) by (simp add: nth_append)
        show "v \<noteq> NaN" by (rule nn)
        show "\<forall>j<Suc i. score_le ((pre @ [v]) ! j) v"
          using Cons.prems(1,5) s score_le_refl
          by (auto simp: nth_append less_Suc_eq intro: score_le_trans)
        show "\<forall>j<i. \<not> score_le v ((pre @ [v]) ! j)"
        proof (intro allI impI)
          fix j assume j: "j < i"
          have "score_le (pre ! j) mp" using Cons.prems(5) j by simp
          with s have "\<not> score_le v (pre ! j)" using score_le_trans by blast
          then show "\<not> score_le v ((pre @ [v]) ! j)"
            using Cons.prems(1) j by (simp add: nth_append)
        qed
      qed
      with False nn show ?thesis by simp
    qed
  qed
qed

lemma np_argmax_spec:
  "xs \<noteq> [] \<Longrightarrow> \<exists>i. np_argmax xs = Inr i \<and> is_first_max xs i"
proof (cases xs)
  case Nil
  assume "xs \<noteq> []"
  with Nil show ?thesis by simp
next
  case (Cons v vs)
  show ?thesis
  proof (cases "v = NaN")
    case True
    have "is_first_max (v # vs) 0"
      using True by (simp add: is_first_max_def score_le_NaN_right)
    with Cons True show ?thesis by (simp add: np_argmax_def)
  next
    case False
    have "is_first_max ([v] @ vs) (argmax_loop v 0 1 vs)"
      by (rule argmax_loop_spec) (simp_all add: False score_le_refl)
    with Cons False show ?thesis by (simp add: np_argmax_def)
  qed
qed

lemma is_first_max_unique:
  "is_first_max xs i \<Longrightarrow> is_first_max xs j \<Longrightarrow> i = j"
proof (rule ccontr)
  assume a: "is_first_max xs i" "is_first_max xs j" and ne: "i \<noteq> j"
  then consider "i < j" | "j < i" by linarith
  then show False
  proof cases
    case 1
    with a(2) have "\<not> score_le (xs ! j) (xs ! i)" by (simp add: is_first_max_def)
    moreover from a have "score_le (xs ! j) (xs ! i)" by (simp add: is_first_max_def)
    ultimately show False by simp
  next
    case 2
    with a(1) have "\<not> score_le (xs ! i) (xs ! j)" by (simp add: is_first_max_def)
    moreover from a have "score_le (xs ! i) (xs ! j)" by (simp add: is_first_max_def)
    ultimately show False by simp
  qed
qed


subsection \<open>Distinct values in order of appearance\<close>

lemma set_unique_loop: "set (unique_loop seen xs) = set xs - set seen"
  by (induction xs arbitrary: seen) auto

lemma distinct_unique_loop: "distinct (unique_loop seen xs)"
  by (induction xs arbitrary: seen) (auto simp: set_unique_loop)

lemma first_index_Cons:
  "first_index (x # xs) y = (if y = x then 0 else Suc (first_index xs y))"
  by (auto simp: first_index_def)

lemma first_seen_unique_loop:
  "sorted_wrt (\<lambda>a b. first_index xs a < first_index xs b) (unique_loop seen xs)"
proof (induction xs arbitrary: seen)
  case Nil
  then show ?case by simp
next
  case (Cons x xs)
  have step: "sorted_wrt (\<lambda>a b. first_index (x # xs) a < first_index (x # xs) b) (unique_loop s xs)"
    if "x \<in> set s" for s
  proof (rule sorted_wrt_mono_rel [OF _ Cons.IH [of s]])
    fix a b
    assume "a \<in> set (unique_loop s xs)" "b \<in> set (unique_loop s xs)"
      "first_index xs a < first_index xs b"
    with that show "first_index (x # xs) a < first_index (x # xs) b"
      by (auto simp: set_unique_loop first_index_Cons)
  qed
  show ?case
  proof (cases "x \<in> set seen")
    case True
    with step [of seen] show ?thesis by simp
  next
    case False
    have "\<forall>b\<in>set (unique_loop (x # seen) xs). first_index (x # xs) x < first_index (x # xs) b"
      by (auto simp: set_unique_loop first_index_Cons)
    with step [of "x # seen"] False show ?thesis by simp
  qed
qed

lemma unique_props:
  "set (unique xs) = set xs" "distinct (unique xs)"
  "sorted_wrt (<) (map (first_index xs) (unique xs))"
  using first_seen_unique_loop [of xs "[]"]
  by (simp_all add: unique_def set_unique_loop distinct_unique_loop sorted_wrt_map)

lemma unique_hd: "xs \<noteq> [] \<Longrightarrow> unique xs \<noteq> [] \<and> hd (unique xs) = hd xs"
  by (cases xs) (simp_all add: unique_def)

lemma length_unique: "length (unique xs) = card (set xs)"
  using distinct_card [of "unique xs"] by (simp add: unique_props)

section \<open>Properties of the retrieval\<close>

lemma cosine_similarity_ok:
  "encoder_dim enc d \<Longrightarrow> texts \<noteq> [] \<Longrightarrow>
     cosine_similarity sim (enc q) (map enc texts) = Inr (map (\<lambda>t. sim (enc q) (enc t)) texts)"
proof -
  assume a: "encoder_dim enc d" "texts \<noteq> []"
  then have "enc q \<noteq> []" by (auto simp: encoder_dim_def)
  moreover from a have "list_all (\<lambda>y. length y = length (enc q)) (map enc texts)"
    by (simp add: encoder_dim_def list_all_iff)
  ultimately show ?thesis using a(2) by (simp add: cosine_similarity_def comp_def)
qed

lemma getitem_nth: "i < length xs \<Longrightarrow> getitem xs (int i) = Inr (xs ! i)"
  by (simp add: getitem_def)

lemma getitem_Inr: "getitem xs i = Inr v \<Longrightarrow> v \<in> set xs"
  by (auto simp: getitem_def split: if_splits)

lemma passages_nonempty:
  "t \<in> fst ` set data \<Longrightarrow> passages_for_topic data t \<noteq> []"
  by (auto simp: passages_for_topic_def filter_empty_conv)

text \<open>
  On an index whose rows are the embeddings of its topics, whose topics all occur in the
  data, and whose encoder keeps its contract, the two stages return: each picks the first
  maximum of its scores.
\<close>

lemma retrieve_wf:
  assumes emb: "title_embeddings self = map (st_model self) (titles self)"
    and ne: "titles self \<noteq> []"
    and sub: "set (titles self) \<subseteq> fst ` set (external_data self)"
    and dim: "encoder_dim (st_model self) d"
  shows "\<exists>bti bci.
           is_first_max (map (\<lambda>t. sim (st_model self q) (st_model self t)) (titles self)) bti \<and>
           is_first_max (map (\<lambda>p. sim (st_model self q) (st_model self p))
             (passages_for_topic (external_data self) (titles self ! bti))) bci \<and>
           passages_for_topic (external_data self) (titles self ! bti) \<noteq> [] \<and>
           retrieve sim self q =
             Inr \<lparr>best_title_index = bti, best_title = titles self ! bti,
                  topic_contexts = passages_for_topic (external_data self) (titles self ! bti),
                  best_context_index = bci,
                  best_context = passages_for_topic (external_data self) (titles self ! bti) ! bci\<rparr>"
proof -
  let ?enc = "st_model self"
  let ?ts = "map (\<lambda>t. sim (?enc q) (?enc t)) (titles self)"
  from ne have "?ts \<noteq> []" by simp
  from np_argmax_spec [OF this] obtain bti where
    bti: "np_argmax ?ts = Inr bti" "is_first_max ?ts bti" by blast
  from bti(2) have lt: "bti < length (titles self)" by (simp add: is_first_max_def)
  let ?bt = "titles self ! bti"
  let ?cs = "passages_for_topic (external_data self) ?bt"
  from lt sub have "?bt \<in> fst ` set (external_data self)"
    using nth_mem by blast
  then have cne: "?cs \<noteq> []" by (rule passages_nonempty)
  let ?ps = "map (\<lambda>p. sim (?enc q) (?enc p)) ?cs"
  from cne have "?ps \<noteq> []" by simp
  from np_argmax_spec [OF this] obtain bci where
    bci: "np_argmax ?ps = Inr bci" "is_first_max ?ps bci" by blast
  from bci(2) have lc: "bci < length ?cs" by (simp add: is_first_max_def)
  have "retrieve sim self q =
             Inr \<lparr>best_title_index = bti, best_title = ?bt, topic_contexts = ?cs,
                  best_context_index = bci, best_context = ?cs ! bci\<rparr>"
    unfolding retrieve_def Let_def emb
    by (simp add: cosine_similarity_ok [OF dim ne] cosine_similarity_ok [OF dim cne]
        bti(1) bci(1) getitem_nth [OF lt] getitem_nth [OF lc])
  with bti(2) bci(2) cne show ?thesis by blast
qed

lemma init_fields:
  "RAGLLM_init enc gen data = Inr self \<Longrightarrow>
     st_model self = enc \<and> external_data self = data \<and> titles self = unique (map fst data) \<and>
     title_embeddings self = map enc (titles self) \<and> generator self = gen"
  by (auto simp: RAGLLM_init_def Let_def)

lemma retrieve_Inr:
  "retrieve sim self q = Inr r \<Longrightarrow>
     best_title r \<in> set (titles self) \<and>
     topic_contexts r = passages_for_topic (external_data self) (best_title r) \<and>
     best_context r \<in> set (topic_contexts r)"
  unfolding retrieve_def Let_def
  by (auto split: sum.splits dest: getitem_Inr)

lemma extract_answer_total: "\<exists>a. extract_answer t = Inr a"
  by (simp add: extract_answer_def py_split_def split_loop_nonempty getitem_last)

lemma retrieve_built:
  assumes init: "RAGLLM_init enc gen data = Inr self"
    and ne: "data \<noteq> []" and dim: "encoder_dim enc d"
  shows "\<exists>bti bci.
           is_first_max (map (\<lambda>t. sim (enc q) (enc t)) (titles self)) bti \<and>
           is_first_max (map (\<lambda>p. sim (enc q) (enc p))
             (passages_for_topic data (titles self ! bti))) bci \<and>
           passages_for_topic data (titles self ! bti) \<noteq> [] \<and>
           retrieve sim self q =
             Inr \<lparr>best_title_index = bti, best_title = titles self ! bti,
                  topic_contexts = passages_for_topic data (titles self ! bti),
                  best_context_index = bci,
                  best_context = passages_for_topic data (titles self ! bti) ! bci\<rparr>"
proof -
  note f = init_fields [OF init]
  from f have emb: "title_embeddings self = map (st_model self) (titles self)" by simp
  from f ne have tne: "titles self \<noteq> []" by (simp add: unique_hd)
  from f have sub: "set (titles self) \<subseteq> fst ` set (external_data self)"
    by (simp add: unique_props)
  from f dim have d: "encoder_dim (st_model self) d" by simp
  from retrieve_wf [OF emb tne sub d, of sim q] f show ?thesis by simp
qed


section \<open>Properties of the float32 scores\<close>





lemma rne_0 [simp]: "rne 0 = 0"
  by (simp add: rne_def)



lemma round32_0 [simp]: "round32 0 = Fin 0"
  by (simp add: round32_def)




lemma is_f32_bound: "is_f32 x \<Longrightarrow> \<bar>x\<bar> < 2 ^ 128"
  by (cases "x = 0") (auto simp: is_f32_def round32_def Let_def split: if_splits)

lemma is_f32_0 [simp]: "is_f32 0"
  by (simp add: is_f32_def)
















section \<open>The concrete instance\<close>

lemma toy_encoder_dim: "encoder_dim toy_encoder 2"
  by (simp add: encoder_dim_def toy_encoder_def)

lemma toy_corpus_nonempty: "toy_corpus \<noteq> []"
  by (simp add: toy_corpus_def)

lemma toy_init: "RAGLLM_init toy_encoder toy_generator toy_corpus = Inr toy_index"
  by (simp add: RAGLLM_init_def toy_index_def toy_corpus_def unique_def toy_encoder_def)



lemma toy_cos_sim32:
  "cos_sim32 [2, 0] [0, 3] = Fin 0" "cos_sim32 [2, 0] [2, 0] = Fin 1"
  by code_simp+

lemma toy_sim_values:
  "toy_sim [2, 0] [0, 3] = Fin 0" "toy_sim [2, 0] [2, 0] = Fin 4"
  by (simp_all add: toy_sim_def)

lemma toy_scores:
  "map (cos_sim32 (toy_encoder ''Alaska?'')) (title_embeddings toy_index) = [Fin 0, Fin 1]"
  by (simp add: toy_index_def toy_encoder_def toy_cos_sim32)

lemma toy_retrieve32:
  "retrieve cos_sim32 toy_index ''Alaska?'' =
     Inr \<lparr>best_title_index = 1, best_title = ''Alaska'',
          topic_contexts = [''Coldest state'', ''Alaska is the largest state'', ''Alaska is cold''],
          best_context_index = 1, best_context = ''Alaska is the largest state''\<rparr>"
  by (simp add: retrieve_def toy_index_def toy_corpus_def toy_encoder_def cosine_similarity_def
      np_argmax_def getitem_def passages_for_topic_def toy_cos_sim32)

lemma toy_retrieve:
  "retrieve toy_sim toy_index ''Alaska?'' =
     Inr \<lparr>best_title_index = 1, best_title = ''Alaska'',
          topic_contexts = [''Coldest state'', ''Alaska is the largest state'', ''Alaska is cold''],
          best_context_index = 1, best_context = ''Alaska is the largest state''\<rparr>"
  by (simp add: retrieve_def toy_index_def toy_corpus_def toy_encoder_def cosine_similarity_def
      np_argmax_def getitem_def passages_for_topic_def toy_sim_values)

lemma toy_generate_answer: "generate_answer toy_sim toy_index ''Alaska?'' = Inr ''42''"
  unfolding generate_answer_def toy_retrieve
  by (simp add: toy_generator_def build_prompt_def toy_index_def extract_answer_def
      py_split_def split_loop.simps getitem_def)

section \<open>The claims about the retrieval\<close>

subsection \<open>Selection of topic and passage\<close>

text \<open>
  Claim C1. On an index built from a non-empty corpus, every query gets a result, for
  every function \<open>sim\<close> that scores a pair of rows (the float32 computation of
  scikit-learn, \<open>cos_sim32\<close>, is one). The topic returned is the one whose embedding has
  the maximum score against the query's embedding, and the passage is the one with the
  maximum score among the passages of that topic, which are the contexts of the rows of
  the data with that topic, in their order. Among equal scores the first in order is
  taken, so the topic and the passage are the only ones the scores allow: the result is
  a function of the index and the query, and a second run on the unchanged index gives
  the same result.
\<close>

theorem retrieve_selects_first_max:
  assumes "RAGLLM_init enc gen data = Inr self" and "data \<noteq> []" and "encoder_dim enc d"
  shows "\<exists>r. retrieve sim self q = Inr r \<and>
           is_first_max (map (sim (enc q)) (title_embeddings self)) (best_title_index r) \<and>
           (\<forall>i. is_first_max (map (sim (enc q)) (title_embeddings self)) i \<longrightarrow>
                i = best_title_index r) \<and>
           best_title r = titles self ! best_title_index r \<and>
           title_embeddings self ! best_title_index r = enc (best_title r) \<and>
           topic_contexts r = map snd (filter (\<lambda>row. fst row = best_title r) data) \<and>
           is_first_max (map (\<lambda>p. sim (enc q) (enc p)) (topic_contexts r))
             (best_context_index r) \<and>
           (\<forall>k. is_first_max (map (\<lambda>p. sim (enc q) (enc p)) (topic_contexts r)) k \<longrightarrow>
                k = best_context_index r) \<and>
           best_context r = topic_contexts r ! best_context_index r"
proof -
  note f = init_fields [OF assms(1)]
  let ?ts = "map (sim (enc q)) (title_embeddings self)"
  from f have ts: "?ts = map (\<lambda>t. sim (enc q) (enc t)) (titles self)"
    by (simp add: comp_def)
  from retrieve_built [OF assms, of sim q] obtain bti bci where
    b1: "is_first_max (map (\<lambda>t. sim (enc q) (enc t)) (titles self)) bti" and
    b2: "is_first_max (map (\<lambda>p. sim (enc q) (enc p))
             (passages_for_topic data (titles self ! bti))) bci" and
    b3: "retrieve sim self q =
             Inr \<lparr>best_title_index = bti, best_title = titles self ! bti,
                  topic_contexts = passages_for_topic data (titles self ! bti),
                  best_context_index = bci,
                  best_context = passages_for_topic data (titles self ! bti) ! bci\<rparr>"
    by blast
  let ?r = "\<lparr>best_title_index = bti, best_title = titles self ! bti,
                  topic_contexts = passages_for_topic data (titles self ! bti),
                  best_context_index = bci,
                  best_context = passages_for_topic data (titles self ! bti) ! bci\<rparr>"
  from b1 have lt: "bti < length (titles self)" by (simp add: is_first_max_def)
  with f have e: "title_embeddings self ! bti = enc (titles self ! bti)" by simp
  have u1: "\<forall>i. is_first_max ?ts i \<longrightarrow> i = bti"
    unfolding ts using b1 is_first_max_unique by blast
  have u2: "\<forall>k. is_first_max (map (\<lambda>p. sim (enc q) (enc p))
             (passages_for_topic data (titles self ! bti))) k \<longrightarrow> k = bci"
    using b2 is_first_max_unique by blast
  have "retrieve sim self q = Inr ?r \<and>
           is_first_max ?ts (best_title_index ?r) \<and>
           (\<forall>i. is_first_max ?ts i \<longrightarrow> i = best_title_index ?r) \<and>
           best_title ?r = titles self ! best_title_index ?r \<and>
           title_embeddings self ! best_title_index ?r = enc (best_title ?r) \<and>
           topic_contexts ?r = map snd (filter (\<lambda>row. fst row = best_title ?r) data) \<and>
           is_first_max (map (\<lambda>p. sim (enc q) (enc p)) (topic_contexts ?r))
             (best_context_index ?r) \<and>
           (\<forall>k. is_first_max (map (\<lambda>p. sim (enc q) (enc p)) (topic_contexts ?r)) k \<longrightarrow>
                k = best_context_index ?r) \<and>
           best_context ?r = topic_contexts ?r ! best_context_index ?r"
  proof (intro conjI)
    show "retrieve sim self q = Inr ?r" by (rule b3)
    show "is_first_max ?ts (best_title_index ?r)" using b1 [folded ts] by simp
    show "\<forall>i. is_first_max ?ts i \<longrightarrow> i = best_title_index ?r"
      using u1 by (simp only: retrieval.simps)
    show "title_embeddings self ! best_title_index ?r = enc (best_title ?r)"
      using e by (simp only: retrieval.simps)
    show "topic_contexts ?r = map snd (filter (\<lambda>row. fst row = best_title ?r) data)"
      by (simp only: retrieval.simps passages_for_topic_def)
    show "is_first_max (map (\<lambda>p. sim (enc q) (enc p)) (topic_contexts ?r))
             (best_context_index ?r)"
      using b2 by (simp only: retrieval.simps)
    show "\<forall>k. is_first_max (map (\<lambda>p. sim (enc q) (enc p)) (topic_contexts ?r)) k \<longrightarrow>
                k = best_context_index ?r"
      using u2 by (simp only: retrieval.simps)
  qed (simp_all only: retrieval.simps)
  then show ?thesis by (rule exI)
qed

theorem retrieve_selects_first_max_witness:
  "RAGLLM_init toy_encoder toy_generator toy_corpus = Inr toy_index \<and> toy_corpus \<noteq> [] \<and>
   encoder_dim toy_encoder 2 \<and>
   map (cos_sim32 (toy_encoder ''Alaska?'')) (title_embeddings toy_index) = [Fin 0, Fin 1] \<and>
   (\<exists>r. retrieve cos_sim32 toy_index ''Alaska?'' = Inr r \<and>
      is_first_max (map (cos_sim32 (toy_encoder ''Alaska?'')) (title_embeddings toy_index))
        (best_title_index r) \<and>
      best_title_index r = 1 \<and> best_title r = ''Alaska'' \<and>
      topic_contexts r = [''Coldest state'', ''Alaska is the largest state'', ''Alaska is cold''] \<and>
      map (\<lambda>p. cos_sim32 (toy_encoder ''Alaska?'') (toy_encoder p)) (topic_contexts r) =
        [Fin 0, Fin 1, Fin 1] \<and>
      best_context_index r = 1 \<and> best_context r = ''Alaska is the largest state'')"
proof -
  from retrieve_selects_first_max [OF toy_init toy_corpus_nonempty toy_encoder_dim,
      of cos_sim32 "''Alaska?''"]
  obtain r where r1: "retrieve cos_sim32 toy_index ''Alaska?'' = Inr r" and
    r2: "is_first_max (map (cos_sim32 (toy_encoder ''Alaska?'')) (title_embeddings toy_index))
        (best_title_index r)"
    by blast
  from r1 have r3: "best_title_index r = 1" "best_title r = ''Alaska''"
    "topic_contexts r = [''Coldest state'', ''Alaska is the largest state'', ''Alaska is cold'']"
    "best_context_index r = 1" "best_context r = ''Alaska is the largest state''"
    by (auto simp: toy_retrieve32)
  have r4: "map (\<lambda>p. cos_sim32 (toy_encoder ''Alaska?'') (toy_encoder p)) (topic_contexts r) =
        [Fin 0, Fin 1, Fin 1]"
    unfolding r3 by (simp add: toy_encoder_def toy_cos_sim32)
  from r1 r2 r3 r4 have "\<exists>r. retrieve cos_sim32 toy_index ''Alaska?'' = Inr r \<and>
      is_first_max (map (cos_sim32 (toy_encoder ''Alaska?'')) (title_embeddings toy_index))
        (best_title_index r) \<and>
      best_title_index r = 1 \<and> best_title r = ''Alaska'' \<and>
      topic_contexts r = [''Coldest state'', ''Alaska is the largest state'', ''Alaska is cold''] \<and>
      map (\<lambda>p. cos_sim32 (toy_encoder ''Alaska?'') (toy_encoder p)) (topic_contexts r) =
        [Fin 0, Fin 1, Fin 1] \<and>
      best_context_index r = 1 \<and> best_context r = ''Alaska is the largest state''"
    by (intro exI [of _ r] conjI)
  with toy_init toy_corpus_nonempty toy_encoder_dim toy_scores show ?thesis by (intro conjI)
qed

text \<open>
  Claim C2. Whenever the retrieval returns, the topic is one of the index's topics and
  the passage is one of the passages the data holds for that topic.
\<close>

theorem best_context_in_best_topic:
  "retrieve sim self q = Inr r \<Longrightarrow>
     best_title r \<in> set (titles self) \<and>
     best_context r \<in> set (passages_for_topic (external_data self) (best_title r))"
proof -
  assume a: "retrieve sim self q = Inr r"
  from retrieve_Inr [OF a] have t: "best_title r \<in> set (titles self)"
    and c: "topic_contexts r = passages_for_topic (external_data self) (best_title r)"
    and m: "best_context r \<in> set (topic_contexts r)"
    by blast+
  from m have "best_context r \<in> set (passages_for_topic (external_data self) (best_title r))"
    unfolding c .
  with t show ?thesis ..
qed

theorem best_context_in_best_topic_witness:
  "retrieve toy_sim toy_index ''Alaska?'' =
     Inr \<lparr>best_title_index = 1, best_title = ''Alaska'',
          topic_contexts = [''Coldest state'', ''Alaska is the largest state'', ''Alaska is cold''],
          best_context_index = 1, best_context = ''Alaska is the largest state''\<rparr> \<and>
   ''Alaska is the largest state'' \<in> set (passages_for_topic toy_corpus ''Alaska'')"
  using best_context_in_best_topic [OF toy_retrieve] toy_retrieve
  by (simp add: toy_index_def)

subsection \<open>The empty corpus\<close>

text \<open>
  Claim C5, as stated: construction from an empty sequence of entries fails with
  \<open>EmptyCorpusError\<close> and produces no topic set and no matrix. The constructor has no
  such check: on the empty corpus it returns an index.
\<close>

theorem init_empty_corpus_counterexample:
  "RAGLLM_init toy_encoder toy_generator [] =
     Inr \<lparr>st_model = toy_encoder, external_data = [], titles = [], title_embeddings = [],
          generator = toy_generator\<rparr>"
  by (simp add: RAGLLM_init_def unique_def)

text \<open>
  Claim C5, amended: construction from an empty sequence of entries does not fail; it
  produces an index whose topic set and topic-embedding matrix are empty. The failure
  comes with the first query, which raises \<open>ValueError\<close> in the similarity of the
  first stage.
\<close>

theorem init_empty_corpus:
  "RAGLLM_init enc gen [] =
     Inr \<lparr>st_model = enc, external_data = [], titles = [], title_embeddings = [],
          generator = gen\<rparr> \<and>
   retrieve sim \<lparr>st_model = enc, external_data = [], titles = [], title_embeddings = [],
          generator = gen\<rparr> q = Inl ValueError \<and>
   generate_answer sim \<lparr>st_model = enc, external_data = [], titles = [], title_embeddings = [],
          generator = gen\<rparr> q = Inl ValueError"
  by (simp add: RAGLLM_init_def unique_def retrieve_def generate_answer_def cosine_similarity_def)

subsection \<open>Zero norms\<close>




subsection \<open>The topic set\<close>

text \<open>
  Claim C7. The topics of the index are exactly the distinct topics of the corpus, each
  once, in the order in which they are first seen; the matrix has one row for each
  distinct topic, and row \<open>i\<close> is the embedding of the \<open>i\<close>-th topic.
\<close>

theorem topic_set_first_seen:
  assumes "RAGLLM_init enc gen data = Inr self"
  shows "set (titles self) = fst ` set data \<and> distinct (titles self) \<and>
         sorted_wrt (<) (map (first_index (map fst data)) (titles self)) \<and>
         length (titles self) = card (fst ` set data) \<and>
         length (title_embeddings self) = length (titles self) \<and>
         (\<forall>i<length (titles self). title_embeddings self ! i = enc (titles self ! i))"
proof -
  note f = init_fields [OF assms]
  from f have t: "titles self = unique (map fst data)" by simp
  from f have e: "title_embeddings self = map enc (titles self)" by simp
  have "set (titles self) = fst ` set data" unfolding t by (simp add: unique_props)
  moreover have "distinct (titles self)" unfolding t by (rule unique_props)
  moreover have "sorted_wrt (<) (map (first_index (map fst data)) (titles self))"
    unfolding t by (rule unique_props)
  moreover have "length (titles self) = card (fst ` set data)"
    unfolding t by (simp add: length_unique)
  moreover have "length (title_embeddings self) = length (titles self)"
    unfolding e by simp
  moreover have "\<forall>i<length (titles self). title_embeddings self ! i = enc (titles self ! i)"
    unfolding e by simp
  ultimately show ?thesis by (intro conjI)
qed

theorem topic_set_first_seen_witness:
  "RAGLLM_init toy_encoder toy_generator toy_corpus = Inr toy_index \<and>
   titles toy_index = [''Florida'', ''Alaska''] \<and>
   set (titles toy_index) = fst ` set toy_corpus \<and>
   length (title_embeddings toy_index) = 2 \<and>
   title_embeddings toy_index ! 1 = toy_encoder ''Alaska''"
proof -
  note c = topic_set_first_seen [OF toy_init]
  have t: "titles toy_index = [''Florida'', ''Alaska'']" by (simp add: toy_index_def)
  from c have s: "set (titles toy_index) = fst ` set toy_corpus" by (elim conjE)
  from c have l: "length (title_embeddings toy_index) = length (titles toy_index)"
    by (elim conjE)
  from c have a: "\<forall>i<length (titles toy_index). title_embeddings toy_index ! i = toy_encoder (titles toy_index ! i)"
    by (elim conjE)
  from l have l2: "length (title_embeddings toy_index) = 2" unfolding t by simp
  from a have a1: "title_embeddings toy_index ! 1 = toy_encoder ''Alaska''" unfolding t by simp
  from toy_init t s l2 a1 show ?thesis by (intro conjI)
qed

text \<open>
  Claim C8, as stated: the lookup of a topic that is not in the topic set fails with
  \<open>UnknownTopicError\<close>. The lookup is a filter of the rows with no check: for such a
  topic it returns the empty sequence.
\<close>

theorem unknown_topic_counterexample:
  "''Texas'' \<notin> set (unique (map fst toy_corpus)) \<and> passages_for_topic toy_corpus ''Texas'' = []"
  by (simp add: toy_corpus_def unique_def passages_for_topic_def)

text \<open>
  Claim C8, amended: the lookup of the passages of a topic never fails; it returns the
  empty sequence exactly for the topics that are not in the topic set.
\<close>

theorem unknown_topic_empty:
  "topic \<notin> set (unique (map fst data)) \<longleftrightarrow> passages_for_topic data topic = []"
  by (auto simp: unique_props passages_for_topic_def filter_empty_conv)

theorem unknown_topic_empty_witness:
  "''Hawaii'' \<notin> set (unique (map fst toy_corpus)) \<and> passages_for_topic toy_corpus ''Hawaii'' = []"
proof -
  have h: "''Hawaii'' \<notin> set (unique (map fst toy_corpus))"
    by (simp add: toy_corpus_def unique_def)
  with unknown_topic_empty [of "''Hawaii''" toy_corpus] show ?thesis by simp
qed

subsection \<open>Totality on a non-empty corpus\<close>

text \<open>
  Claim C10. On an index built from a non-empty corpus, every topic of the topic set has
  a passage, so for every query the topic chosen in the first stage has a non-empty list
  of passages, both indices are in range and the retrieval returns a result.
\<close>

theorem retrieve_total:
  assumes "RAGLLM_init enc gen data = Inr self" and "data \<noteq> []" and "encoder_dim enc d"
  shows "(\<forall>t\<in>set (titles self). passages_for_topic data t \<noteq> []) \<and>
         (\<exists>r. retrieve sim self q = Inr r \<and> best_title_index r < length (titles self) \<and>
            topic_contexts r = passages_for_topic data (best_title r) \<and>
            topic_contexts r \<noteq> [] \<and> best_context_index r < length (topic_contexts r) \<and>
            best_context r = topic_contexts r ! best_context_index r)"
proof (intro conjI)
  note f = init_fields [OF assms(1)]
  from f show "\<forall>t\<in>set (titles self). passages_for_topic data t \<noteq> []"
    by (auto simp: unique_props intro!: passages_nonempty)
  from retrieve_built [OF assms, of sim q] obtain bti bci where
    b1: "is_first_max (map (\<lambda>t. sim (enc q) (enc t)) (titles self)) bti" and
    b2: "is_first_max (map (\<lambda>p. sim (enc q) (enc p))
             (passages_for_topic data (titles self ! bti))) bci" and
    b3: "passages_for_topic data (titles self ! bti) \<noteq> []" and
    b4: "retrieve sim self q =
             Inr \<lparr>best_title_index = bti, best_title = titles self ! bti,
                  topic_contexts = passages_for_topic data (titles self ! bti),
                  best_context_index = bci,
                  best_context = passages_for_topic data (titles self ! bti) ! bci\<rparr>"
    by blast
  from b1 have l1: "bti < length (titles self)" by (simp add: is_first_max_def)
  from b2 have l2: "bci < length (passages_for_topic data (titles self ! bti))"
    by (simp add: is_first_max_def)
  from b3 b4 l1 l2
  show "\<exists>r. retrieve sim self q = Inr r \<and> best_title_index r < length (titles self) \<and>
            topic_contexts r = passages_for_topic data (best_title r) \<and>
            topic_contexts r \<noteq> [] \<and> best_context_index r < length (topic_contexts r) \<and>
            best_context r = topic_contexts r ! best_context_index r"
    by simp
qed

theorem retrieve_total_witness:
  "RAGLLM_init toy_encoder toy_generator toy_corpus = Inr toy_index \<and> toy_corpus \<noteq> [] \<and>
   encoder_dim toy_encoder 2 \<and>
   (\<exists>r. retrieve toy_sim toy_index ''Alaska?'' = Inr r \<and> topic_contexts r \<noteq> [])"
proof -
  note c = retrieve_total [OF toy_init toy_corpus_nonempty toy_encoder_dim, of toy_sim "''Alaska?''"]
  from c obtain r where r: "retrieve toy_sim toy_index ''Alaska?'' = Inr r" "topic_contexts r \<noteq> []"
    by (elim conjE exE)
  then have 1: "\<exists>r. retrieve toy_sim toy_index ''Alaska?'' = Inr r \<and> topic_contexts r \<noteq> []"
    by (intro exI [of _ r] conjI)
  from toy_init toy_corpus_nonempty toy_encoder_dim 1 show ?thesis by (intro conjI)
qed

end
